theory Spec2Isabelle
  imports Main "HOL-Library.Sublist" "HOL-Library.AList" "HOL-Library.Multiset"
begin

section \<open>Digests, descriptors and errors\<close>

text \<open>
  The tag store of the registry (\<^verbatim>\<open>registry/storage/tagstore.go\<close>) keeps, for every
  tag of a repository, a link file holding the digest the tag points at, and an index of
  the digests the tag has pointed at. It is written against a storage driver that is
  addressed by paths. A path is kept here as the list of its components; a tag and a
  repository name are one component each.
\<close>

type_synonym path = "string list"
type_synonym digest = string

datatype error =
    PathNotFoundError path
  | ErrRepositoryUnknown string
  | ErrTagUnknown string
  | ValidationError digest
  | BackendError string

text \<open>The type switch \<^verbatim>\<open>case storagedriver.PathNotFoundError\<close>.\<close>

fun isPathNotFound :: "error \<Rightarrow> bool" where
  "isPathNotFound (PathNotFoundError p) = True"
| "isPathNotFound e = False"

record Descriptor =
  MediaType :: string
  Size :: int
  Digest :: digest

definition emptyDescriptor :: Descriptor where
  "emptyDescriptor = \<lparr>MediaType = [], Size = 0, Digest = []\<rparr>"

text \<open>
  Modelled from the spec: digests are validated by the digest library, outside the tag
  store. The spec (section 3) asks for a non-empty, well-formed digest and (section 7)
  names the failure a validation error. Well-formed is taken as \<^verbatim>\<open>algorithm:hex\<close> with one of the
  algorithms sha256, sha384, sha512 and a lower-case hexadecimal part of the length that
  belongs to the algorithm, which is the form of every digest in the tests.
\<close>

definition hexDigit :: "char \<Rightarrow> bool" where
  "hexDigit c = (c \<in> set ''0123456789abcdef'')"

definition encodedLength :: "string \<Rightarrow> nat option" where
  "encodedLength a =
     (if a = ''sha256'' then Some 64
      else if a = ''sha384'' then Some 96
      else if a = ''sha512'' then Some 128
      else None)"

definition Algorithm :: "digest \<Rightarrow> string" where
  "Algorithm d = takeWhile (\<lambda>c. c \<noteq> CHR '':'') d"

definition Hex :: "digest \<Rightarrow> string" where
  "Hex d = drop (Suc (length (Algorithm d))) d"

definition Validate :: "digest \<Rightarrow> error option" where
  "Validate d =
     (case encodedLength (Algorithm d) of
        None \<Rightarrow> Some (ValidationError d)
      | Some n \<Rightarrow>
          if length (Algorithm d) < length d \<and> length (Hex d) = n \<and> list_all hexDigit (Hex d)
          then None else Some (ValidationError d))"

section \<open>Path naming\<close>

text \<open>
  Modelled from the spec: \<^verbatim>\<open>pathFor\<close> and the path specs are defined in
  \<^verbatim>\<open>paths.go\<close>, outside the tag store. The spec (section 2)
  names the three kinds of path the tag store needs (the tag directory with one entry per
  tag, the current link of a tag, the index-entry link of a tag and a digest) and leaves
  the hierarchy to the path scheme (section 6). The hierarchy below is the registry's
  storage layout,
  \<^verbatim>\<open>repositories/<name>/_manifests/tags/<tag>/current/link\<close> and
  \<^verbatim>\<open>repositories/<name>/_manifests/tags/<tag>/index/<algorithm>/<hex>/link\<close>:
  the current link and the index of a tag both sit below the tag's own entry in the tag
  directory, which is the path \<^verbatim>\<open>manifestTagPathSpec\<close> names. Components are
  joined as \<^verbatim>\<open>path.Join\<close> does, which drops empty elements: with an empty tag,
  \<^verbatim>\<open>manifestTagPathSpec\<close> is the tag directory itself, and that is how
  \<^verbatim>\<open>All\<close> uses it. The path of an index entry needs the components of the
  digest and fails on a digest that does not validate.
\<close>

datatype pathSpec =
    manifestTagsPathSpec string
  | manifestTagPathSpec string string
  | manifestTagCurrentPathSpec string string
  | manifestTagIndexPathSpec string string
  | manifestTagIndexEntryPathSpec string string digest
  | manifestTagIndexEntryLinkPathSpec string string digest

definition repoPrefix :: path where
  "repoPrefix = [''docker'', ''registry'', ''v2'', ''repositories'']"

definition join :: "path \<Rightarrow> string list \<Rightarrow> path" where
  "join root elems = root @ filter (\<lambda>e. e \<noteq> []) elems"

definition digestPathComponents :: "digest \<Rightarrow> error + string list" where
  "digestPathComponents dgst =
     (case Validate dgst of
        Some e \<Rightarrow> Inl e
      | None \<Rightarrow> Inr [Algorithm dgst, Hex dgst])"

definition manifestTagsPath :: "string \<Rightarrow> path" where
  "manifestTagsPath name = join repoPrefix [name, ''_manifests'', ''tags'']"

definition manifestTagPath :: "string \<Rightarrow> string \<Rightarrow> path" where
  "manifestTagPath name tag = join (manifestTagsPath name) [tag]"

definition pathFor :: "pathSpec \<Rightarrow> error + path" where
  "pathFor spec =
     (case spec of
        manifestTagsPathSpec name \<Rightarrow> Inr (manifestTagsPath name)
      | manifestTagPathSpec name tag \<Rightarrow> Inr (manifestTagPath name tag)
      | manifestTagCurrentPathSpec name tag \<Rightarrow>
          Inr (join (manifestTagPath name tag) [''current'', ''link''])
      | manifestTagIndexPathSpec name tag \<Rightarrow>
          Inr (join (manifestTagPath name tag) [''index''])
      | manifestTagIndexEntryPathSpec name tag revision \<Rightarrow>
          (case digestPathComponents revision of
             Inl e \<Rightarrow> Inl e
           | Inr components \<Rightarrow>
               Inr (join (join (manifestTagPath name tag) [''index'']) components))
      | manifestTagIndexEntryLinkPathSpec name tag revision \<Rightarrow>
          (case digestPathComponents revision of
             Inl e \<Rightarrow> Inl e
           | Inr components \<Rightarrow>
               Inr (join (join (join (manifestTagPath name tag) [''index'']) components) [''link''])))"

section \<open>The storage driver\<close>

text \<open>
  Modelled from the spec: the storage driver is an interface implemented outside the tag
  store (spec, section 6: get, put with overwrite, list, delete, each of which may answer
  with a not-found error or another error). The driver here is the one of the tests
  (\<^verbatim>\<open>mockInMemory\<close>), an in-memory store wrapped so that a call can be made to
  fail: the stored files as an association list from paths to contents, and for each
  call the error, if any, it is made to return at a path. \<^verbatim>\<open>Delete\<close> removes
  a path with everything below it; \<^verbatim>\<open>List\<close> gives the direct children of a
  directory. The journal records the mutating calls that were carried out, in their
  order.
\<close>

datatype call = PutContentCall path string | DeleteCall path

record storageDriver =
  files :: "(path \<times> string) list"
  journal :: "call list"
  GetContentError :: "path \<Rightarrow> error option"
  PutContentError :: "path \<Rightarrow> error option"
  ListError :: "path \<Rightarrow> error option"
  DeleteError :: "path \<Rightarrow> error option"

definition GetContent :: "storageDriver \<Rightarrow> path \<Rightarrow> error + string" where
  "GetContent d p =
     (case GetContentError d p of
        Some e \<Rightarrow> Inl e
      | None \<Rightarrow>
          (case map_of (files d) p of
             None \<Rightarrow> Inl (PathNotFoundError p)
           | Some c \<Rightarrow> Inr c))"

definition PutContent :: "storageDriver \<Rightarrow> path \<Rightarrow> string \<Rightarrow> error option \<times> storageDriver" where
  "PutContent d p c =
     (case PutContentError d p of
        Some e \<Rightarrow> (Some e, d)
      | None \<Rightarrow>
          (None, d\<lparr>files := AList.update p c (files d),
                   journal := journal d @ [PutContentCall p c]\<rparr>))"

definition children :: "(path \<times> string) list \<Rightarrow> path \<Rightarrow> path list" where
  "children fs p =
     remdups (map (\<lambda>q. take (Suc (length p)) q) (filter (strict_prefix p) (map fst fs)))"

definition ListPath :: "storageDriver \<Rightarrow> path \<Rightarrow> error + path list" where
  "ListPath d p =
     (case ListError d p of
        Some e \<Rightarrow> Inl e
      | None \<Rightarrow>
          if children (files d) p = [] then Inl (PathNotFoundError p)
          else Inr (children (files d) p))"

definition Delete :: "storageDriver \<Rightarrow> path \<Rightarrow> error option \<times> storageDriver" where
  "Delete d p =
     (case DeleteError d p of
        Some e \<Rightarrow> (Some e, d)
      | None \<Rightarrow>
          if list_ex (\<lambda>q. prefix p q) (map fst (files d))
          then (None, d\<lparr>files := filter (\<lambda>(q, c). \<not> prefix p q) (files d),
                        journal := journal d @ [DeleteCall p]\<rparr>)
          else (Some (PathNotFoundError p), d))"

section \<open>Link files\<close>

text \<open>
  Modelled from the spec: \<^verbatim>\<open>blobStore.link\<close>, \<^verbatim>\<open>blobStore.readlink\<close>
  and \<^verbatim>\<open>linkedBlobStore.linkBlob\<close> are defined outside the tag store. By the
  spec (section 4.1) reading a link gives the stored digest as it is, writing a link
  overwrites; by section 4.2 the index entry of a tag is a link file at the path that the
  store's path function gives for the digest, and nothing is written when that path
  cannot be computed.
\<close>

definition link :: "storageDriver \<Rightarrow> path \<Rightarrow> digest \<Rightarrow> error option \<times> storageDriver" where
  "link d p dgst = PutContent d p dgst"

definition readlink :: "storageDriver \<Rightarrow> path \<Rightarrow> error + digest" where
  "readlink d p = GetContent d p"

record tagStore =
  repository :: string

record linkedBlobStore =
  lbsRepository :: string
  linkPathFn :: "string \<Rightarrow> digest \<Rightarrow> error + path"

definition linkBlob :: "linkedBlobStore \<Rightarrow> storageDriver \<Rightarrow> Descriptor \<Rightarrow> error option \<times> storageDriver" where
  "linkBlob lbs d desc =
     (case linkPathFn lbs (lbsRepository lbs) (Digest desc) of
        Inl e \<Rightarrow> (Some e, d)
      | Inr blobLinkPath \<Rightarrow> link d blobLinkPath (Digest desc))"

section \<open>The tag store\<close>

definition filename :: "path \<Rightarrow> string" where
  "filename entry = (if entry = [] then [] else last entry)"

definition All_tags :: "tagStore \<Rightarrow> storageDriver \<Rightarrow> string list \<times> error option" where
  "All_tags ts d =
     (case pathFor (manifestTagPathSpec (repository ts) []) of
        Inl err \<Rightarrow> ([], Some err)
      | Inr pathSpec \<Rightarrow>
          (case ListPath d pathSpec of
             Inl err \<Rightarrow>
               if isPathNotFound err then ([], Some (ErrRepositoryUnknown (repository ts)))
               else ([], Some err)
           | Inr entries \<Rightarrow> (map filename entries, None)))"

definition tagLinkedBlobStore :: "tagStore \<Rightarrow> string \<Rightarrow> linkedBlobStore" where
  "tagLinkedBlobStore ts tag =
     \<lparr>lbsRepository = repository ts,
      linkPathFn = (\<lambda>name dgst. pathFor (manifestTagIndexEntryLinkPathSpec name tag dgst))\<rparr>"

definition Tag :: "tagStore \<Rightarrow> storageDriver \<Rightarrow> string \<Rightarrow> Descriptor \<Rightarrow> error option \<times> storageDriver" where
  "Tag ts d tag desc =
     (case pathFor (manifestTagCurrentPathSpec (repository ts) tag) of
        Inl err \<Rightarrow> (Some err, d)
      | Inr currentPath \<Rightarrow>
          (case linkBlob (tagLinkedBlobStore ts tag) d desc of
             (Some err, d') \<Rightarrow> (Some err, d')
           | (None, d') \<Rightarrow> link d' currentPath (Digest desc)))"

definition Get :: "tagStore \<Rightarrow> storageDriver \<Rightarrow> string \<Rightarrow> Descriptor \<times> error option" where
  "Get ts d tag =
     (case pathFor (manifestTagCurrentPathSpec (repository ts) tag) of
        Inl err \<Rightarrow> (emptyDescriptor, Some err)
      | Inr currentPath \<Rightarrow>
          (case readlink d currentPath of
             Inl err \<Rightarrow>
               if isPathNotFound err then (emptyDescriptor, Some (ErrTagUnknown tag))
               else (emptyDescriptor, Some err)
           | Inr revision \<Rightarrow> (emptyDescriptor\<lparr>Digest := revision\<rparr>, None)))"

definition Untag :: "tagStore \<Rightarrow> storageDriver \<Rightarrow> string \<Rightarrow> error option \<times> storageDriver" where
  "Untag ts d tag =
     (case pathFor (manifestTagPathSpec (repository ts) tag) of
        Inl err \<Rightarrow> (Some err, d)
      | Inr tagPath \<Rightarrow>
          (case Delete d tagPath of
             (Some err, d') \<Rightarrow> if isPathNotFound err then (None, d') else (Some err, d')
           | (None, d') \<Rightarrow> (None, d')))"


section \<open>The test environment\<close>

text \<open>
  The environment of the tests: a fresh in-memory driver in which no call is made to fail,
  the repository \<^verbatim>\<open>a/b\<close>, and the digests the tests tag with.
\<close>

definition testDriver :: storageDriver where
  "testDriver =
     \<lparr>files = [], journal = [], GetContentError = (\<lambda>p. None),
      PutContentError = (\<lambda>p. None), ListError = (\<lambda>p. None), DeleteError = (\<lambda>p. None)\<rparr>"

definition testTagStore :: tagStore where
  "testTagStore = \<lparr>repository = ''a/b''\<rparr>"

definition digestA :: digest where
  "digestA = ''sha256:aaaaaaaaaaaaaaaaaaaaaaaaaaaaaaaaaaaaaaaaaaaaaaaaaaaaaaaaaaaaaaaa''"

definition digestB :: digest where
  "digestB = ''sha256:bbbbbbbbbbbbbbbbbbbbbbbbbbbbbbbbbbbbbbbbbbbbbbbbbbbbbbbbbbbbbbbb''"

definition descA :: Descriptor where
  "descA = emptyDescriptor\<lparr>Digest := digestA\<rparr>"

definition descB :: Descriptor where
  "descB = emptyDescriptor\<lparr>Digest := digestB\<rparr>"

section \<open>The paths of a tag\<close>

text \<open>
  The two link files of a tag, written out: the current link, and the index entry of a
  digest that validates.
\<close>

definition currentLinkPath :: "string \<Rightarrow> string \<Rightarrow> path" where
  "currentLinkPath name tag = manifestTagPath name tag @ [''current'', ''link'']"

definition indexEntryLinkPath :: "string \<Rightarrow> string \<Rightarrow> digest \<Rightarrow> path" where
  "indexEntryLinkPath name tag dgst =
     manifestTagPath name tag @ [''index'', Algorithm dgst, Hex dgst, ''link'']"

lemma Validate_digestA: "Validate digestA = None"
  by (simp add: Validate_def digestA_def Algorithm_def Hex_def encodedLength_def hexDigit_def)

lemma Validate_digestB: "Validate digestB = None"
  by (simp add: Validate_def digestB_def Algorithm_def Hex_def encodedLength_def hexDigit_def)

lemma pathFor_tag:
  "pathFor (manifestTagPathSpec name tag) = Inr (manifestTagPath name tag)"
  by (simp add: pathFor_def)

lemma pathFor_current:
  "pathFor (manifestTagCurrentPathSpec name tag) = Inr (currentLinkPath name tag)"
  by (simp add: pathFor_def currentLinkPath_def join_def)

lemma Validate_nonempty:
  "Validate dgst = None \<Longrightarrow> Algorithm dgst \<noteq> [] \<and> Hex dgst \<noteq> []"
  by (auto simp: Validate_def encodedLength_def split: option.splits if_splits)

lemma Validate_error:
  "Validate dgst = Some e \<Longrightarrow> e = ValidationError dgst"
  by (auto simp: Validate_def split: option.splits if_splits)

lemma pathFor_indexEntryLink:
  "pathFor (manifestTagIndexEntryLinkPathSpec name tag dgst) =
     (case Validate dgst of
        Some e \<Rightarrow> Inl e
      | None \<Rightarrow> Inr (indexEntryLinkPath name tag dgst))"
  using Validate_nonempty[of dgst]
  by (auto simp: pathFor_def digestPathComponents_def indexEntryLinkPath_def join_def
           split: option.splits)

section \<open>The operations by cases\<close>

lemma map_of_filter_fst:
  "map_of (filter (\<lambda>(q, c). P q) xs) k = (if P k then map_of xs k else None)"
  by (induction xs) auto

lemma manifestTagPath_empty_tag: "manifestTagPath name [] = manifestTagsPath name"
  by (simp add: manifestTagPath_def join_def)


text \<open>
  \<^verbatim>\<open>Tag\<close> has four outcomes: the digest does not validate; the write of the index
  entry fails; the write of the current link fails; both writes are carried out.
\<close>

lemma Tag_cases:
  "Tag ts d tag desc =
     (case Validate (Digest desc) of
        Some e \<Rightarrow> (Some e, d)
      | None \<Rightarrow>
         (case PutContentError d (indexEntryLinkPath (repository ts) tag (Digest desc)) of
            Some e \<Rightarrow> (Some e, d)
          | None \<Rightarrow>
             (case PutContentError d (currentLinkPath (repository ts) tag) of
                Some e \<Rightarrow>
                  (Some e,
                   d\<lparr>files := AList.update (indexEntryLinkPath (repository ts) tag (Digest desc))
                                 (Digest desc) (files d),
                     journal := journal d @
                        [PutContentCall (indexEntryLinkPath (repository ts) tag (Digest desc))
                           (Digest desc)]\<rparr>)
              | None \<Rightarrow>
                  (None,
                   d\<lparr>files := AList.update (currentLinkPath (repository ts) tag) (Digest desc)
                                 (AList.update (indexEntryLinkPath (repository ts) tag (Digest desc))
                                    (Digest desc) (files d)),
                     journal := journal d @
                        [PutContentCall (indexEntryLinkPath (repository ts) tag (Digest desc))
                           (Digest desc),
                         PutContentCall (currentLinkPath (repository ts) tag) (Digest desc)]\<rparr>))))"
  by (simp add: Tag_def pathFor_current linkBlob_def tagLinkedBlobStore_def
        pathFor_indexEntryLink link_def PutContent_def split: option.splits)

lemma Get_cases:
  "Get ts d tag =
     (case GetContent d (currentLinkPath (repository ts) tag) of
        Inl err \<Rightarrow>
          if isPathNotFound err then (emptyDescriptor, Some (ErrTagUnknown tag))
          else (emptyDescriptor, Some err)
      | Inr revision \<Rightarrow> (emptyDescriptor\<lparr>Digest := revision\<rparr>, None))"
  by (simp add: Get_def pathFor_current readlink_def)

lemma Untag_cases:
  "Untag ts d tag =
     (case DeleteError d (manifestTagPath (repository ts) tag) of
        Some e \<Rightarrow> if isPathNotFound e then (None, d) else (Some e, d)
      | None \<Rightarrow>
          if list_ex (prefix (manifestTagPath (repository ts) tag)) (map fst (files d))
          then (None,
                d\<lparr>files := filter (\<lambda>(q, c). \<not> prefix (manifestTagPath (repository ts) tag) q)
                              (files d),
                  journal := journal d @ [DeleteCall (manifestTagPath (repository ts) tag)]\<rparr>)
          else (None, d))"
  by (simp add: Untag_def pathFor_tag Delete_def split: option.splits)

section \<open>Listing the tags\<close>

text \<open>
  Claim C6. \<^verbatim>\<open>All\<close> on a repository whose tag directory does not exist (the driver
  lists nothing below it and is not made to fail) returns the empty sequence together
  with \<^verbatim>\<open>ErrRepositoryUnknown\<close> carrying the repository's name; when the listing fails
  with any error other than a not-found error, \<^verbatim>\<open>All\<close> returns that very error.
\<close>

theorem All_tags_repository_unknown:
  "(ListError d (manifestTagsPath (repository ts)) = None \<and>
      (\<forall>q \<in> fst ` set (files d). \<not> strict_prefix (manifestTagsPath (repository ts)) q)
     \<longrightarrow> All_tags ts d = ([], Some (ErrRepositoryUnknown (repository ts)))) \<and>
   (\<forall>e. ListPath d (manifestTagsPath (repository ts)) = Inl e \<and> \<not> isPathNotFound e
     \<longrightarrow> All_tags ts d = ([], Some e))"
proof -
  have "children (files d) p = []" if "\<forall>q \<in> fst ` set (files d). \<not> strict_prefix p q" for p
    using that by (auto simp: children_def filter_empty_conv)
  then show ?thesis
    by (auto simp: All_tags_def pathFor_tag manifestTagPath_empty_tag ListPath_def
             split: option.splits)
qed

theorem All_tags_repository_unknown_witness:
  "ListError testDriver (manifestTagsPath (repository testTagStore)) = None \<and>
   files testDriver = [] \<and>
   All_tags testTagStore testDriver = ([], Some (ErrRepositoryUnknown ''a/b'')) \<and>
   ListPath (testDriver\<lparr>ListError := (\<lambda>p. Some (BackendError ''list''))\<rparr>)
      (manifestTagsPath (repository testTagStore)) = Inl (BackendError ''list'') \<and>
   \<not> isPathNotFound (BackendError ''list'') \<and>
   All_tags testTagStore (testDriver\<lparr>ListError := (\<lambda>p. Some (BackendError ''list''))\<rparr>)
     = ([], Some (BackendError ''list''))"
  using All_tags_repository_unknown[of testDriver testTagStore]
    All_tags_repository_unknown
      [of "testDriver\<lparr>ListError := (\<lambda>p. Some (BackendError ''list''))\<rparr>" testTagStore]
  by (simp add: testDriver_def testTagStore_def ListPath_def)

section \<open>Tagging\<close>

text \<open>
  Claim C9. \<^verbatim>\<open>Tag\<close> with a descriptor whose digest is empty or does not validate
  fails with a validation error and leaves the driver as it was: no file is written and
  no mutating call is made.
\<close>

theorem Tag_rejects_invalid_digest:
  "Validate [] \<noteq> None \<and>
   (Validate (Digest desc) \<noteq> None \<longrightarrow>
      Tag ts d tag desc = (Some (ValidationError (Digest desc)), d))"
  by (auto simp: Tag_cases Validate_def encodedLength_def Algorithm_def split: option.splits)

theorem Tag_rejects_invalid_digest_witness:
  "Validate (Digest emptyDescriptor) \<noteq> None \<and>
   Tag testTagStore testDriver ''latest'' emptyDescriptor = (Some (ValidationError []), testDriver)"
  using Tag_rejects_invalid_digest[of emptyDescriptor testTagStore testDriver "''latest''"]
  by (simp add: emptyDescriptor_def)

text \<open>
  Claim C2. After a successful \<^verbatim>\<open>Tag\<close> of a tag with a descriptor, whatever the
  driver held before, \<^verbatim>\<open>Get\<close> of the tag (its read not being made to fail) succeeds
  and returns the descriptor's digest; after two successful \<^verbatim>\<open>Tag\<close> calls on the
  tag it returns the digest of the second; and \<^verbatim>\<open>Tag\<close> does succeed for a digest
  that validates when neither of its writes is made to fail.
\<close>

theorem Tag_Get_roundtrip:
  "(Tag ts d tag desc = (None, d') \<and>
    GetContentError d' (currentLinkPath (repository ts) tag) = None
      \<longrightarrow> Get ts d' tag = (emptyDescriptor\<lparr>Digest := Digest desc\<rparr>, None)) \<and>
   (Tag ts d tag desc1 = (None, d1) \<and> Tag ts d1 tag desc2 = (None, d2) \<and>
    GetContentError d2 (currentLinkPath (repository ts) tag) = None
      \<longrightarrow> Get ts d2 tag = (emptyDescriptor\<lparr>Digest := Digest desc2\<rparr>, None)) \<and>
   (Validate (Digest desc) = None \<and>
    PutContentError d (indexEntryLinkPath (repository ts) tag (Digest desc)) = None \<and>
    PutContentError d (currentLinkPath (repository ts) tag) = None
      \<longrightarrow> fst (Tag ts d tag desc) = None)"
proof -
  have rt: "Get ts d' tag = (emptyDescriptor\<lparr>Digest := Digest desc\<rparr>, None)"
    if "Tag ts d tag desc = (None, d')"
      and "GetContentError d' (currentLinkPath (repository ts) tag) = None"
    for d d' desc
    using that
    by (auto simp: Tag_cases Get_cases GetContent_def update_conv' split: option.splits)
  have ok: "fst (Tag ts d tag desc) = None"
    if "Validate (Digest desc) = None"
      and "PutContentError d (indexEntryLinkPath (repository ts) tag (Digest desc)) = None"
      and "PutContentError d (currentLinkPath (repository ts) tag) = None"
    using that by (simp add: Tag_cases)
  from rt ok show ?thesis by blast
qed

definition taggedA :: storageDriver where
  "taggedA = snd (Tag testTagStore testDriver ''latest'' descA)"

definition taggedB :: storageDriver where
  "taggedB = snd (Tag testTagStore taggedA ''latest'' descB)"

lemma Validate_desc: "Validate (Digest descA) = None" "Validate (Digest descB) = None"
  by (simp_all add: descA_def descB_def Validate_digestA Validate_digestB)

lemma Tag_testDriver: "Tag testTagStore testDriver ''latest'' descA = (None, taggedA)"
  unfolding taggedA_def by (simp add: Tag_cases Validate_desc testDriver_def)

lemma Tag_taggedA: "Tag testTagStore taggedA ''latest'' descB = (None, taggedB)"
  unfolding taggedB_def taggedA_def by (simp add: Tag_cases Validate_desc testDriver_def)

lemma GetContentError_tagged:
  "GetContentError taggedA p = None" "GetContentError taggedB p = None"
  unfolding taggedB_def taggedA_def by (simp_all add: Tag_cases Validate_desc testDriver_def)

theorem Tag_Get_roundtrip_witness:
  "Tag testTagStore testDriver ''latest'' descA = (None, taggedA) \<and>
   Tag testTagStore taggedA ''latest'' descB = (None, taggedB) \<and>
   GetContentError taggedA (currentLinkPath (repository testTagStore) ''latest'') = None \<and>
   GetContentError taggedB (currentLinkPath (repository testTagStore) ''latest'') = None \<and>
   Get testTagStore taggedA ''latest'' = (descA, None) \<and>
   Get testTagStore taggedB ''latest'' = (descB, None) \<and>
   Validate (Digest descA) = None \<and>
   PutContentError testDriver
     (indexEntryLinkPath (repository testTagStore) ''latest'' (Digest descA)) = None \<and>
   PutContentError testDriver (currentLinkPath (repository testTagStore) ''latest'') = None \<and>
   fst (Tag testTagStore testDriver ''latest'' descA) = None"
proof -
  have p: "PutContentError testDriver p = None" for p
    by (simp add: testDriver_def)
  from Tag_Get_roundtrip
         [of testTagStore testDriver "''latest''" descA taggedA descA taggedA descB taggedB]
    Tag_testDriver Tag_taggedA GetContentError_tagged p Validate_desc
  show ?thesis by (simp add: descA_def descB_def)
qed

section \<open>Resolving and removing a tag\<close>

lemma current_under_tag:
  "prefix (manifestTagPath name tag) (currentLinkPath name tag)"
  by (simp add: currentLinkPath_def)

lemma Untag_faults:
  "Untag ts d tag = (r, d') \<Longrightarrow>
     GetContentError d' = GetContentError d \<and> PutContentError d' = PutContentError d \<and>
     ListError d' = ListError d \<and> DeleteError d' = DeleteError d"
  by (auto simp: Untag_cases split: option.splits if_splits)

lemma Tag_faults:
  "Tag ts d tag desc = (r, d') \<Longrightarrow>
     GetContentError d' = GetContentError d \<and> PutContentError d' = PutContentError d \<and>
     ListError d' = ListError d \<and> DeleteError d' = DeleteError d"
  by (auto simp: Tag_cases split: option.splits if_splits)

lemma Untag_removes:
  assumes "Untag ts d tag = (r, d')"
    and "DeleteError d (manifestTagPath (repository ts) tag) = None"
    and "prefix (manifestTagPath (repository ts) tag) p"
  shows "r = None \<and> map_of (files d') p = None"
proof (cases "list_ex (prefix (manifestTagPath (repository ts) tag)) (map fst (files d))")
  case True
  with assms show ?thesis
    by (auto simp: Untag_cases map_of_filter_fst)
next
  case False
  with assms(3) have "p \<notin> fst ` set (files d)"
    by (auto simp: list_ex_iff)
  then have "map_of (files d) p = None"
    by (simp add: map_of_eq_None_iff)
  with assms False show ?thesis
    by (auto simp: Untag_cases)
qed


text \<open>
  Claim C7. \<^verbatim>\<open>Get\<close> of a tag whose current link is absent fails with
  \<^verbatim>\<open>ErrTagUnknown\<close> for that tag; a read of the link that fails with any error
  other than a not-found error makes \<^verbatim>\<open>Get\<close> return that error; and after a
  successful \<^verbatim>\<open>Tag\<close> followed by a successful \<^verbatim>\<open>Untag\<close> of the tag
  (the delete and the read not being made to fail) \<^verbatim>\<open>Get\<close> fails with
  \<^verbatim>\<open>ErrTagUnknown\<close> for that tag.
\<close>

theorem Get_unknown_tag:
  "(GetContentError d (currentLinkPath (repository ts) tag) = None \<and>
    map_of (files d) (currentLinkPath (repository ts) tag) = None
      \<longrightarrow> Get ts d tag = (emptyDescriptor, Some (ErrTagUnknown tag))) \<and>
   (\<forall>e. readlink d (currentLinkPath (repository ts) tag) = Inl e \<and> \<not> isPathNotFound e
      \<longrightarrow> Get ts d tag = (emptyDescriptor, Some e)) \<and>
   (Tag ts d tag desc = (None, d1) \<and> Untag ts d1 tag = (None, d2) \<and>
    DeleteError d (manifestTagPath (repository ts) tag) = None \<and>
    GetContentError d (currentLinkPath (repository ts) tag) = None
      \<longrightarrow> Get ts d2 tag = (emptyDescriptor, Some (ErrTagUnknown tag)))"
proof -
  have a: "Get ts d tag = (emptyDescriptor, Some (ErrTagUnknown tag))"
    if "GetContentError d (currentLinkPath (repository ts) tag) = None"
      and "map_of (files d) (currentLinkPath (repository ts) tag) = None" for d
    using that by (simp add: Get_cases GetContent_def)
  have b: "Get ts d tag = (emptyDescriptor, Some e)"
    if "readlink d (currentLinkPath (repository ts) tag) = Inl e" and "\<not> isPathNotFound e" for e
    using that by (simp add: Get_cases readlink_def)
  have c: "Get ts d2 tag = (emptyDescriptor, Some (ErrTagUnknown tag))"
    if t: "Tag ts d tag desc = (None, d1)" and u: "Untag ts d1 tag = (None, d2)"
      and de: "DeleteError d (manifestTagPath (repository ts) tag) = None"
      and ge: "GetContentError d (currentLinkPath (repository ts) tag) = None"
  proof -
    from Tag_faults[OF t] Untag_faults[OF u] ge de
    have g2: "GetContentError d2 (currentLinkPath (repository ts) tag) = None"
      and d1: "DeleteError d1 (manifestTagPath (repository ts) tag) = None"
      by simp_all
    from Untag_removes[OF u d1 current_under_tag]
    have "map_of (files d2) (currentLinkPath (repository ts) tag) = None" by simp
    with g2 show ?thesis by (rule a[OF _ ])
  qed
  from a b c show ?thesis by blast
qed

definition untaggedA :: storageDriver where
  "untaggedA = snd (Untag testTagStore taggedA ''latest'')"

lemma Untag_taggedA: "Untag testTagStore taggedA ''latest'' = (None, untaggedA)"
  unfolding untaggedA_def taggedA_def
  by (simp add: Untag_cases Tag_cases Validate_desc testDriver_def)

theorem Get_unknown_tag_witness:
  "GetContentError testDriver (currentLinkPath (repository testTagStore) ''latest'') = None \<and>
   map_of (files testDriver) (currentLinkPath (repository testTagStore) ''latest'') = None \<and>
   Get testTagStore testDriver ''latest'' = (emptyDescriptor, Some (ErrTagUnknown ''latest'')) \<and>
   readlink (testDriver\<lparr>GetContentError := (\<lambda>p. Some (BackendError ''Lookup failure''))\<rparr>)
     (currentLinkPath (repository testTagStore) ''latest'') = Inl (BackendError ''Lookup failure'') \<and>
   \<not> isPathNotFound (BackendError ''Lookup failure'') \<and>
   Get testTagStore (testDriver\<lparr>GetContentError := (\<lambda>p. Some (BackendError ''Lookup failure''))\<rparr>)
     ''latest'' = (emptyDescriptor, Some (BackendError ''Lookup failure'')) \<and>
   Tag testTagStore testDriver ''latest'' descA = (None, taggedA) \<and>
   Untag testTagStore taggedA ''latest'' = (None, untaggedA) \<and>
   DeleteError testDriver (manifestTagPath (repository testTagStore) ''latest'') = None \<and>
   Get testTagStore untaggedA ''latest'' = (emptyDescriptor, Some (ErrTagUnknown ''latest''))"
proof -
  let ?f = "testDriver\<lparr>GetContentError := (\<lambda>p. Some (BackendError ''Lookup failure''))\<rparr>"
  have 1: "GetContentError testDriver p = None" "DeleteError testDriver p = None"
    "files testDriver = []" for p
    by (simp_all add: testDriver_def)
  have 2: "readlink ?f p = Inl (BackendError ''Lookup failure'')" for p
    by (simp add: readlink_def GetContent_def)
  from Get_unknown_tag[of testDriver testTagStore "''latest''" descA taggedA untaggedA]
    Get_unknown_tag[of ?f testTagStore "''latest''" descA taggedA untaggedA]
    1 2 Tag_testDriver Untag_taggedA
  show ?thesis by simp
qed

section \<open>Untagging again\<close>

text \<open>\<^verbatim>\<open>Untag\<close> called a number of times in a row on the same tag, with the results
  in order.\<close>

fun Untag_times :: "nat \<Rightarrow> tagStore \<Rightarrow> storageDriver \<Rightarrow> string \<Rightarrow> error option list \<times> storageDriver" where
  "Untag_times 0 ts d tag = ([], d)"
| "Untag_times (Suc k) ts d tag =
     (case Untag ts d tag of
        (r, d') \<Rightarrow> (case Untag_times k ts d' tag of (rs, d'') \<Rightarrow> (r # rs, d'')))"

lemma Untag_succeeds:
  "\<forall>e. DeleteError d (manifestTagPath (repository ts) tag) = Some e \<longrightarrow> isPathNotFound e \<Longrightarrow>
   fst (Untag ts d tag) = None"
  by (auto simp: Untag_cases split: option.splits)

lemma Untag_times_succeeds:
  "\<forall>e. DeleteError d (manifestTagPath (repository ts) tag) = Some e \<longrightarrow> isPathNotFound e \<Longrightarrow>
   fst (Untag_times k ts d tag) = replicate k None"
proof (induction k arbitrary: d)
  case 0
  then show ?case by simp
next
  case (Suc k)
  obtain r d' where u: "Untag ts d tag = (r, d')" by (cases "Untag ts d tag")
  with Untag_succeeds[OF Suc.prems] have r: "r = None" by simp
  from Untag_faults[OF u] Suc.prems
  have "\<forall>e. DeleteError d' (manifestTagPath (repository ts) tag) = Some e \<longrightarrow> isPathNotFound e"
    by simp
  from Suc.IH[OF this] u r show ?case
    by (auto split: prod.splits)
qed

lemma Untag_times_absent:
  "map_of (files d) p = None \<Longrightarrow> map_of (files (snd (Untag_times k ts d tag))) p = None"
proof (induction k arbitrary: d)
  case 0
  then show ?case by simp
next
  case (Suc k)
  obtain r d' where u: "Untag ts d tag = (r, d')" by (cases "Untag ts d tag")
  then have "map_of (files d') p = None"
    using Suc.prems by (auto simp: Untag_cases map_of_filter_fst split: option.splits if_splits)
  from Suc.IH[OF this] u show ?case
    by (auto split: prod.splits)
qed

text \<open>
  Claim C8. On a tag that has no current link, \<^verbatim>\<open>Untag\<close> succeeds any number
  of times in a row (the delete not being made to fail with anything but a not-found
  error), and the tag still has no current link afterwards; a not-found error of the
  delete is absorbed, \<^verbatim>\<open>Untag\<close> returning no error and the driver as it was; any
  other error of the delete is returned by \<^verbatim>\<open>Untag\<close> as it is.
\<close>

theorem Untag_idempotent:
  "((\<forall>e. DeleteError d (manifestTagPath (repository ts) tag) = Some e \<longrightarrow> isPathNotFound e) \<and>
    map_of (files d) (currentLinkPath (repository ts) tag) = None
      \<longrightarrow> fst (Untag_times k ts d tag) = replicate k None \<and>
          map_of (files (snd (Untag_times k ts d tag))) (currentLinkPath (repository ts) tag) = None) \<and>
   (\<forall>e. fst (Delete d (manifestTagPath (repository ts) tag)) = Some e \<and> isPathNotFound e
      \<longrightarrow> Untag ts d tag = (None, d)) \<and>
   (\<forall>e. fst (Delete d (manifestTagPath (repository ts) tag)) = Some e \<and> \<not> isPathNotFound e
      \<longrightarrow> Untag ts d tag = (Some e, d))"
proof -
  have "Untag ts d tag = (if isPathNotFound e then None else Some e, d)"
    if "fst (Delete d (manifestTagPath (repository ts) tag)) = Some e" for e
    using that by (auto simp: Untag_def pathFor_tag Delete_def split: option.splits if_splits)
  with Untag_times_succeeds[of d ts tag k] Untag_times_absent[of d _ k ts tag]
  show ?thesis by auto
qed

theorem Untag_idempotent_witness:
  "(\<forall>e. DeleteError testDriver (manifestTagPath (repository testTagStore) ''latest'') \<noteq> Some e) \<and>
   map_of (files testDriver) (currentLinkPath (repository testTagStore) ''latest'') = None \<and>
   fst (Untag_times 3 testTagStore testDriver ''latest'') = [None, None, None] \<and>
   fst (Delete testDriver (manifestTagPath (repository testTagStore) ''latest''))
     = Some (PathNotFoundError (manifestTagPath (repository testTagStore) ''latest'')) \<and>
   Untag testTagStore testDriver ''latest'' = (None, testDriver) \<and>
   fst (Delete (testDriver\<lparr>DeleteError := (\<lambda>p. Some (BackendError ''delete''))\<rparr>)
          (manifestTagPath (repository testTagStore) ''latest'')) = Some (BackendError ''delete'') \<and>
   Untag testTagStore (testDriver\<lparr>DeleteError := (\<lambda>p. Some (BackendError ''delete''))\<rparr>) ''latest''
     = (Some (BackendError ''delete''), testDriver\<lparr>DeleteError := (\<lambda>p. Some (BackendError ''delete''))\<rparr>)"
proof -
  let ?f = "testDriver\<lparr>DeleteError := (\<lambda>p. Some (BackendError ''delete''))\<rparr>"
  have 1: "DeleteError testDriver p = None" "files testDriver = []" for p
    by (simp_all add: testDriver_def)
  have 2: "fst (Delete testDriver p) = Some (PathNotFoundError p)"
    "fst (Delete ?f p) = Some (BackendError ''delete'')" for p
    by (simp_all add: Delete_def testDriver_def)
  from Untag_idempotent[of testDriver testTagStore "''latest''" 3]
    Untag_idempotent[of ?f testTagStore "''latest''" 3] 1 2
  show ?thesis by (simp add: numeral_3_eq_3)
qed

section \<open>What untagging removes\<close>
















section \<open>The index entry behind every current link\<close>

text \<open>
  The invariant of the spec (section 3): whenever a tag has a current link, the index
  entry of the tag and the digest the link holds exists. A tag is a non-empty component.
\<close>

definition indexed :: "string \<Rightarrow> storageDriver \<Rightarrow> bool" where
  "indexed name d =
     (\<forall>tag dgst. tag \<noteq> [] \<longrightarrow> map_of (files d) (currentLinkPath name tag) = Some dgst \<longrightarrow>
        (\<exists>p. pathFor (manifestTagIndexEntryLinkPathSpec name tag dgst) = Inr p \<and>
             map_of (files d) p \<noteq> None))"





lemma indexed_journal [simp]: "indexed name (d\<lparr>journal := j\<rparr>) = indexed name d"
  by (simp add: indexed_def)





section \<open>Lookup: the goroutines\<close>

text \<open>
  \<^verbatim>\<open>Lookup\<close> lists the tags and starts one goroutine for each, after taking a slot
  of the limiter channel (capacity 10); a further goroutine waits for the wait group and
  closes the tag channel; the calling goroutine then receives from the error channel and
  the tag channel in a \<^verbatim>\<open>select\<close> loop. The goroutines are modelled as
  processes that take one step at a time, in any order: a state holds the program
  counter of every goroutine and the contents of the channels, and a schedule, a list of
  actors, says whose turn it is. A step that cannot be taken (a send on a full channel,
  a receive on an empty one, a wait that is not over) is \<open>None\<close>, and so is a step
  the Go runtime would panic on (a send on a closed channel, a negative wait group
  counter). The driver is read only, so the answer of every read is fixed by the driver
  the call is given.

  The caller's \<^verbatim>\<open>ctx\<close> is either one that is never cancelled or one that the
  caller may cancel at any moment. \<^verbatim>\<open>ctxDone\<close> says that the one derived from it
  by \<^verbatim>\<open>context.WithCancel\<close> is done: because the caller cancelled, or because
  \<^verbatim>\<open>Lookup\<close> called \<^verbatim>\<open>cancel\<close>.
\<close>

datatype Context = Background | WithCancel

text \<open>
  The program counter of the goroutine of a tag. \<^verbatim>\<open>WStart\<close>: before the check
  of \<^verbatim>\<open>ctx.Err()\<close>. \<^verbatim>\<open>WRead\<close>: before \<^verbatim>\<open>readlink\<close>.
  \<^verbatim>\<open>WErr\<close>: the read failed with an error other than not-found, before the
  \<^verbatim>\<open>select\<close> on \<^verbatim>\<open>ctx.Done()\<close>. \<^verbatim>\<open>WSendErr\<close>: before the send
  to the error channel. \<^verbatim>\<open>WMatch\<close> and \<^verbatim>\<open>WSendTag\<close>: the same for a
  digest that equals the target and the tag channel. \<^verbatim>\<open>WRelease\<close>: the
  deferred receive from the limiter. \<^verbatim>\<open>WDone\<close>: the deferred
  \<^verbatim>\<open>wg.Done()\<close>. \<^verbatim>\<open>WExit\<close>: the goroutine is over.
\<close>

datatype worker =
    WStart
  | WRead
  | WErr error
  | WSendErr error
  | WMatch
  | WSendTag
  | WRelease
  | WDone
  | WExit

text \<open>
  The calling goroutine is in the \<^verbatim>\<open>for\<close> loop over the tags, in the
  \<^verbatim>\<open>select\<close> loop, or has returned a list of tags and an error. The closing
  goroutine is not started, waits for the wait group, is about to close the tag channel,
  or is over.
\<close>

datatype mainpc = MLoop | MSelect | MReturn "string list" "error option"

datatype closerpc = CNone | CWait | CClose | CExit

record lookup =
  workers :: "(string \<times> worker) list"
  limiter :: nat
  wg :: nat
  errChan :: "error list"
  errClosed :: bool
  tagChan :: "string list"
  tagClosed :: bool
  ctxDone :: bool
  tags :: "string list"
  main :: mainpc
  closer :: closerpc

text \<open>
  Who moves: the calling goroutine in its loop over the tags; the calling goroutine
  taking the error case or the tag case of its \<^verbatim>\<open>select\<close>; the goroutine of the
  tag at an index; the closing goroutine; the caller cancelling \<^verbatim>\<open>ctx\<close>.
\<close>

datatype actor = AMain | ARecvErr | ARecvTag | AWorker nat | ACloser | ACancel

definition start :: "string list \<Rightarrow> lookup" where
  "start allTags =
     \<lparr>workers = [], limiter = 0, wg = length allTags,
      errChan = [], errClosed = False, tagChan = [], tagClosed = False,
      ctxDone = False, tags = [], main = MLoop, closer = CNone\<rparr>"

text \<open>
  The path a goroutine reads: \<^verbatim>\<open>tagLinkPath, _ := pathFor(tagLinkPathSpec)\<close>, the
  error dropped.
\<close>

definition tagLinkPath :: "tagStore \<Rightarrow> string \<Rightarrow> path" where
  "tagLinkPath ts tag =
     (case pathFor (manifestTagCurrentPathSpec (repository ts) tag) of
        Inl e \<Rightarrow> []
      | Inr p \<Rightarrow> p)"

fun workerStep ::
  "tagStore \<Rightarrow> storageDriver \<Rightarrow> Descriptor \<Rightarrow> nat \<Rightarrow> string \<Rightarrow> worker \<Rightarrow> lookup
     \<Rightarrow> (worker \<times> lookup) option" where
  "workerStep ts d desc n tag WStart s =
     Some (if ctxDone s then WRelease else WRead, s)"
| "workerStep ts d desc n tag WRead s =
     (case readlink d (tagLinkPath ts tag) of
        Inl err \<Rightarrow> Some (if isPathNotFound err then WRelease else WErr err, s)
      | Inr tagDigest \<Rightarrow> Some (if tagDigest = Digest desc then WMatch else WRelease, s))"
| "workerStep ts d desc n tag (WErr err) s =
     Some (if ctxDone s then WRelease else WSendErr err, s)"
| "workerStep ts d desc n tag (WSendErr err) s =
     (if errClosed s \<or> n \<le> length (errChan s) then None
      else Some (WRelease, s\<lparr>errChan := errChan s @ [err]\<rparr>))"
| "workerStep ts d desc n tag WMatch s =
     Some (if ctxDone s then WRelease else WSendTag, s)"
| "workerStep ts d desc n tag WSendTag s =
     (if tagClosed s \<or> n \<le> length (tagChan s) then None
      else Some (WRelease, s\<lparr>tagChan := tagChan s @ [tag]\<rparr>))"
| "workerStep ts d desc n tag WRelease s =
     (if limiter s = 0 then None else Some (WDone, s\<lparr>limiter := limiter s - 1\<rparr>))"
| "workerStep ts d desc n tag WDone s =
     (if wg s = 0 then None else Some (WExit, s\<lparr>wg := wg s - 1\<rparr>))"
| "workerStep ts d desc n tag WExit s = None"

text \<open>
  One step of an actor. The calling goroutine starts the goroutine of the next tag when
  the limiter has a free slot, and when all are started it starts the closing goroutine
  and enters the \<^verbatim>\<open>select\<close> loop. There it may receive an error, on which it
  cancels and returns the error with no tags; or a tag, which it appends; when the tag
  channel is closed and empty it closes the error channel and returns the tags with no
  error. On every return the deferred \<^verbatim>\<open>cancel\<close> runs.
\<close>

fun step ::
  "tagStore \<Rightarrow> storageDriver \<Rightarrow> Context \<Rightarrow> Descriptor \<Rightarrow> string list \<Rightarrow> actor \<Rightarrow> lookup
     \<Rightarrow> lookup option" where
  "step ts d ctx desc allTags AMain s =
     (if main s = MLoop then
        (if length (workers s) < length allTags then
           (if limiter s < 10 then
              Some (s\<lparr>limiter := limiter s + 1,
                      workers := workers s @ [(allTags ! length (workers s), WStart)]\<rparr>)
            else None)
         else Some (s\<lparr>closer := CWait, main := MSelect\<rparr>))
      else None)"
| "step ts d ctx desc allTags ARecvErr s =
     (if main s = MSelect then
        (case errChan s of
           err # rest \<Rightarrow>
             Some (s\<lparr>errChan := rest, ctxDone := True, main := MReturn [] (Some err)\<rparr>)
         | [] \<Rightarrow>
             if errClosed s then Some (s\<lparr>ctxDone := True, main := MReturn (tags s) None\<rparr>)
             else None)
      else None)"
| "step ts d ctx desc allTags ARecvTag s =
     (if main s = MSelect then
        (case tagChan s of
           tag # rest \<Rightarrow> Some (s\<lparr>tagChan := rest, tags := tags s @ [tag]\<rparr>)
         | [] \<Rightarrow>
             if tagClosed s
             then Some (s\<lparr>errClosed := True, ctxDone := True, main := MReturn (tags s) None\<rparr>)
             else None)
      else None)"
| "step ts d ctx desc allTags (AWorker i) s =
     (if i < length (workers s) then
        (case workerStep ts d desc (length allTags) (fst (workers s ! i)) (snd (workers s ! i)) s of
           None \<Rightarrow> None
         | Some (w, s') \<Rightarrow> Some (s'\<lparr>workers := (workers s')[i := (fst (workers s ! i), w)]\<rparr>))
      else None)"
| "step ts d ctx desc allTags ACloser s =
     (case closer s of
        CWait \<Rightarrow> if wg s = 0 then Some (s\<lparr>closer := CClose\<rparr>) else None
      | CClose \<Rightarrow> Some (s\<lparr>tagClosed := True, closer := CExit\<rparr>)
      | _ \<Rightarrow> None)"
| "step ts d ctx desc allTags ACancel s =
     (if ctx = WithCancel \<and> \<not> ctxDone s then Some (s\<lparr>ctxDone := True\<rparr>) else None)"

fun exec ::
  "tagStore \<Rightarrow> storageDriver \<Rightarrow> Context \<Rightarrow> Descriptor \<Rightarrow> string list \<Rightarrow> actor list \<Rightarrow> lookup
     \<Rightarrow> lookup option" where
  "exec ts d ctx desc allTags [] s = Some s"
| "exec ts d ctx desc allTags (a # sched) s =
     (case step ts d ctx desc allTags a s of
        None \<Rightarrow> None
      | Some s' \<Rightarrow> exec ts d ctx desc allTags sched s')"

text \<open>
  \<^verbatim>\<open>Lookup\<close> under a schedule: the result it returns, or \<open>None\<close> when the
  schedule does not bring the call to its return.
\<close>

fun isRepositoryUnknown :: "error \<Rightarrow> bool" where
  "isRepositoryUnknown (ErrRepositoryUnknown name) = True"
| "isRepositoryUnknown e = False"

definition Lookup ::
  "tagStore \<Rightarrow> storageDriver \<Rightarrow> Context \<Rightarrow> Descriptor \<Rightarrow> actor list
     \<Rightarrow> (string list \<times> error option) option" where
  "Lookup ts d ctx desc sched =
     (case All_tags ts d of
        (allTags, err) \<Rightarrow>
          if (case err of None \<Rightarrow> True | Some e \<Rightarrow> isRepositoryUnknown e) then
            (case exec ts d ctx desc allTags sched (start allTags) of
               None \<Rightarrow> None
             | Some s \<Rightarrow>
                 (case main s of
                    MReturn tgs e \<Rightarrow> Some (tgs, e)
                  | _ \<Rightarrow> None))
          else Some ([], err))"

section \<open>Lookup: the slots of the limiter\<close>

text \<open>
  A goroutine holds a slot of the limiter from its start until its deferred receive from
  the limiter; its read is in flight when it is at \<^verbatim>\<open>WRead\<close>.
\<close>

fun holding :: "worker \<Rightarrow> bool" where
  "holding WDone = False"
| "holding WExit = False"
| "holding w = True"


definition tally :: "(worker \<Rightarrow> bool) \<Rightarrow> (string \<times> worker) list \<Rightarrow> nat" where
  "tally P ws = length (filter (\<lambda>(t, w). P w) ws)"

lemma tally_simps [simp]:
  "tally P [] = 0"
  "tally P ((t, w) # ws) = (if P w then Suc (tally P ws) else tally P ws)"
  "tally P (xs @ ys) = tally P xs + tally P ys"
  by (simp_all add: tally_def)

lemma workerStep_workers:
  "workerStep ts d desc n tag w0 s = Some (w, s1) \<Longrightarrow> workers s1 = workers s"
  by (cases w0) (auto split: if_splits sum.splits)

lemma step_worker_elim:
  assumes "step ts d ctx desc allTags (AWorker i) s = Some s'"
  obtains xs t w0 ys w s1 where
    "workers s = xs @ (t, w0) # ys" "length xs = i"
    "workerStep ts d desc (length allTags) t w0 s = Some (w, s1)"
    "s' = s1\<lparr>workers := xs @ (t, w) # ys\<rparr>"
proof -
  from assms obtain w s1 where i: "i < length (workers s)"
    and ws: "workerStep ts d desc (length allTags) (fst (workers s ! i)) (snd (workers s ! i)) s
               = Some (w, s1)"
    and s': "s' = s1\<lparr>workers := (workers s1)[i := (fst (workers s ! i), w)]\<rparr>"
    by (auto split: if_splits option.splits)
  let ?xs = "take i (workers s)" and ?ys = "drop (Suc i) (workers s)"
  from i have 1: "workers s = ?xs @ (fst (workers s ! i), snd (workers s ! i)) # ?ys"
    by (simp add: id_take_nth_drop)
  from i have 2: "(workers s)[i := (fst (workers s ! i), w)] = ?xs @ (fst (workers s ! i), w) # ?ys"
    by (simp add: upd_conv_take_nth_drop)
  from i have 3: "length ?xs = i" by simp
  from s' 2 workerStep_workers[OF ws]
  have 4: "s' = s1\<lparr>workers := ?xs @ (fst (workers s ! i), w) # ?ys\<rparr>" by simp
  from 1 3 ws 4 show thesis by (rule that)
qed

definition slots :: "lookup \<Rightarrow> bool" where
  "slots s = (limiter s = tally holding (workers s) \<and> limiter s \<le> 10)"

lemma slots_step:
  assumes "step ts d ctx desc allTags a s = Some s'" and "slots s"
  shows "slots s'"
proof (cases a)
  case (AWorker i)
  from assms(1) show ?thesis unfolding AWorker
  proof (rule step_worker_elim)
    fix xs t w0 ys w s1
    assume "workers s = xs @ (t, w0) # ys"
      "workerStep ts d desc (length allTags) t w0 s = Some (w, s1)"
      "s' = s1\<lparr>workers := xs @ (t, w) # ys\<rparr>"
    with assms(2) show ?thesis unfolding slots_def
      by (cases w0) (auto split: if_splits sum.splits)
  qed
qed (use assms in \<open>auto simp: slots_def split: if_splits list.splits closerpc.splits\<close>)

lemma slots_start: "slots (start allTags)"
  by (simp add: slots_def start_def)

lemma slots_exec:
  "exec ts d ctx desc allTags sched s = Some s' \<Longrightarrow> slots s \<Longrightarrow> slots s'"
proof (induction sched arbitrary: s)
  case Nil
  then show ?case by simp
next
  case (Cons a sched)
  then show ?case by (auto split: option.splits dest: slots_step)
qed


section \<open>Lookup: the steps by cases\<close>

fun past :: "worker \<Rightarrow> bool" where
  "past WRelease = True"
| "past WDone = True"
| "past WExit = True"
| "past w = False"

fun exited :: "worker \<Rightarrow> bool" where
  "exited WExit = True"
| "exited w = False"

fun matched :: "worker \<Rightarrow> bool" where
  "matched WMatch = True"
| "matched WSendTag = True"
| "matched w = False"

text \<open>A tag matches when the read of its current link gives the digest looked up.\<close>

definition matches :: "tagStore \<Rightarrow> storageDriver \<Rightarrow> Descriptor \<Rightarrow> string \<Rightarrow> bool" where
  "matches ts d desc tag = (readlink d (tagLinkPath ts tag) = Inr (Digest desc))"

definition sentTags :: "tagStore \<Rightarrow> storageDriver \<Rightarrow> Descriptor \<Rightarrow> (string \<times> worker) list \<Rightarrow> string list" where
  "sentTags ts d desc ws = map fst (filter (\<lambda>(t, w). past w \<and> matches ts d desc t) ws)"

lemma sentTags_simps [simp]:
  "sentTags ts d desc [] = []"
  "sentTags ts d desc ((t, w) # ws) =
     (if past w \<and> matches ts d desc t then t # sentTags ts d desc ws else sentTags ts d desc ws)"
  "sentTags ts d desc (xs @ ys) = sentTags ts d desc xs @ sentTags ts d desc ys"
  by (simp_all add: sentTags_def)

definition running :: "lookup \<Rightarrow> bool" where
  "running s = (main s = MLoop \<or> main s = MSelect)"

lemma workerStep_elims [consumes 1, case_names start_done start notfound failed match other
    err_done err send_err match_done matched send_tag release finish]:
  assumes "workerStep ts d desc n t w0 s = Some (w, s1)"
  obtains
    "w0 = WStart" "ctxDone s" "w = WRelease" "s1 = s"
  | "w0 = WStart" "\<not> ctxDone s" "w = WRead" "s1 = s"
  | e where "w0 = WRead" "readlink d (tagLinkPath ts t) = Inl e" "isPathNotFound e"
      "w = WRelease" "s1 = s"
  | e where "w0 = WRead" "readlink d (tagLinkPath ts t) = Inl e" "\<not> isPathNotFound e"
      "w = WErr e" "s1 = s"
  | "w0 = WRead" "readlink d (tagLinkPath ts t) = Inr (Digest desc)" "w = WMatch" "s1 = s"
  | dg where "w0 = WRead" "readlink d (tagLinkPath ts t) = Inr dg" "dg \<noteq> Digest desc"
      "w = WRelease" "s1 = s"
  | e where "w0 = WErr e" "ctxDone s" "w = WRelease" "s1 = s"
  | e where "w0 = WErr e" "\<not> ctxDone s" "w = WSendErr e" "s1 = s"
  | e where "w0 = WSendErr e" "\<not> errClosed s" "length (errChan s) < n" "w = WRelease"
      "s1 = s\<lparr>errChan := errChan s @ [e]\<rparr>"
  | "w0 = WMatch" "ctxDone s" "w = WRelease" "s1 = s"
  | "w0 = WMatch" "\<not> ctxDone s" "w = WSendTag" "s1 = s"
  | "w0 = WSendTag" "\<not> tagClosed s" "length (tagChan s) < n" "w = WRelease"
      "s1 = s\<lparr>tagChan := tagChan s @ [t]\<rparr>"
  | "w0 = WRelease" "limiter s \<noteq> 0" "w = WDone" "s1 = s\<lparr>limiter := limiter s - 1\<rparr>"
  | "w0 = WDone" "wg s \<noteq> 0" "w = WExit" "s1 = s\<lparr>wg := wg s - 1\<rparr>"
proof (cases w0)
  case WStart
  with assms show ?thesis by (cases "ctxDone s") (auto intro: that(1,2))
next
  case WRead
  show ?thesis
  proof (cases "readlink d (tagLinkPath ts t)")
    case (Inl e)
    with assms WRead show ?thesis by (cases "isPathNotFound e") (auto intro: that(3,4))
  next
    case (Inr dg)
    with assms WRead show ?thesis by (cases "dg = Digest desc") (auto intro: that(5,6))
  qed
next
  case (WErr e)
  with assms show ?thesis by (cases "ctxDone s") (auto intro: that(7,8))
next
  case (WSendErr e)
  with assms show ?thesis by (auto intro: that(9) split: if_splits)
next
  case WMatch
  with assms show ?thesis by (cases "ctxDone s") (auto intro: that(10,11))
next
  case WSendTag
  with assms show ?thesis by (auto intro: that(12) split: if_splits)
next
  case WRelease
  with assms show ?thesis by (auto intro: that(13) split: if_splits)
next
  case WDone
  with assms show ?thesis by (auto intro: that(14) split: if_splits)
next
  case WExit
  with assms show ?thesis by simp
qed

lemma step_elims [consumes 1, case_names spawn select recvErr errClosed recvTag tagClosed
    worker wait close cancel]:
  assumes "step ts d ctx desc allTags a s = Some s'"
  obtains
    "a = AMain" "main s = MLoop" "length (workers s) < length allTags" "limiter s < 10"
      "s' = s\<lparr>limiter := limiter s + 1,
              workers := workers s @ [(allTags ! length (workers s), WStart)]\<rparr>"
  | "a = AMain" "main s = MLoop" "length allTags \<le> length (workers s)"
      "s' = s\<lparr>closer := CWait, main := MSelect\<rparr>"
  | e rest where "a = ARecvErr" "main s = MSelect" "errChan s = e # rest"
      "s' = s\<lparr>errChan := rest, ctxDone := True, main := MReturn [] (Some e)\<rparr>"
  | "a = ARecvErr" "main s = MSelect" "errChan s = []" "errClosed s"
      "s' = s\<lparr>ctxDone := True, main := MReturn (tags s) None\<rparr>"
  | tag rest where "a = ARecvTag" "main s = MSelect" "tagChan s = tag # rest"
      "s' = s\<lparr>tagChan := rest, tags := tags s @ [tag]\<rparr>"
  | "a = ARecvTag" "main s = MSelect" "tagChan s = []" "tagClosed s"
      "s' = s\<lparr>errClosed := True, ctxDone := True, main := MReturn (tags s) None\<rparr>"
  | i xs t w0 ys w s1 where "a = AWorker i" "workers s = xs @ (t, w0) # ys" "length xs = i"
      "workerStep ts d desc (length allTags) t w0 s = Some (w, s1)"
      "s' = s1\<lparr>workers := xs @ (t, w) # ys\<rparr>"
  | "a = ACloser" "closer s = CWait" "wg s = 0" "s' = s\<lparr>closer := CClose\<rparr>"
  | "a = ACloser" "closer s = CClose" "s' = s\<lparr>tagClosed := True, closer := CExit\<rparr>"
  | "a = ACancel" "ctx = WithCancel" "\<not> ctxDone s" "s' = s\<lparr>ctxDone := True\<rparr>"
proof (cases a)
  case AMain
  with assms show ?thesis by (auto intro: that(1,2) split: if_splits)
next
  case ARecvErr
  with assms show ?thesis by (auto intro: that(3,4) split: if_splits list.splits)
next
  case ARecvTag
  with assms show ?thesis by (auto intro: that(5,6) split: if_splits list.splits)
next
  case (AWorker i)
  from assms show ?thesis unfolding AWorker
    by (rule step_worker_elim) (rule that(7)[OF AWorker])
next
  case ACloser
  with assms show ?thesis by (auto intro: that(8,9) split: if_splits closerpc.splits)
next
  case ACancel
  with assms show ?thesis by (auto intro: that(10) split: if_splits)
qed

lemma tally_le_length: "tally P ws \<le> length ws"
  by (simp add: tally_def)

definition inv_struct :: "string list \<Rightarrow> lookup \<Rightarrow> bool" where
  "inv_struct allTags s =
     (map fst (workers s) = take (length (workers s)) allTags \<and>
      length (workers s) \<le> length allTags \<and>
      wg s + tally exited (workers s) = length allTags)"

lemma inv_struct_step:
  assumes st: "step ts d ctx desc allTags a s = Some s'" and inv: "inv_struct allTags s"
  shows "inv_struct allTags s'"
  using st
proof (cases rule: step_elims)
  case (worker i xs t w0 ys w s1)
  from inv worker(2) have m: "map fst xs @ t # map fst ys = take (Suc (length xs + length ys)) allTags"
    and l: "Suc (length xs + length ys) \<le> length allTags"
    and g: "wg s + (tally exited xs + (if exited w0 then 1 else 0) + tally exited ys) = length allTags"
    by (auto simp: inv_struct_def)
  from worker(4) g
  have "wg s1 + (tally exited xs + (if exited w then 1 else 0) + tally exited ys) = length allTags"
    by (cases rule: workerStep_elims) auto
  with m l show ?thesis unfolding worker(5) inv_struct_def by (auto split: if_splits)
qed (use inv in \<open>simp_all add: inv_struct_def take_Suc_conv_app_nth\<close>)

section \<open>Lookup: what holds of every run\<close>

definition inv_ctrl :: "string list \<Rightarrow> lookup \<Rightarrow> bool" where
  "inv_ctrl allTags s =
     ((main s = MLoop) = (closer s = CNone) \<and>
      (closer s \<noteq> CNone \<longrightarrow> length (workers s) = length allTags) \<and>
      (closer s = CClose \<or> closer s = CExit \<longrightarrow> wg s = 0) \<and>
      tagClosed s = (closer s = CExit) \<and>
      (errClosed s \<longrightarrow> tagClosed s) \<and>
      (running s \<longrightarrow> \<not> errClosed s))"

lemma inv_ctrl_step:
  assumes st: "step ts d ctx desc allTags a s = Some s'"
    and str: "inv_struct allTags s" and inv: "inv_ctrl allTags s"
  shows "inv_ctrl allTags s'"
  using st
proof (cases rule: step_elims)
  case (worker i xs t w0 ys w s1)
  from worker(4) inv worker(2) have "inv_ctrl allTags (s1\<lparr>workers := workers s\<rparr>)"
    by (cases rule: workerStep_elims) (auto simp: inv_ctrl_def running_def)
  with worker(2) show ?thesis unfolding worker(5) by (auto simp: inv_ctrl_def running_def)
next
  case select
  with str inv show ?thesis by (auto simp: inv_ctrl_def inv_struct_def running_def)
qed (use inv in \<open>auto simp: inv_ctrl_def running_def\<close>)

definition inv_cap :: "lookup \<Rightarrow> bool" where
  "inv_cap s =
     (length (errChan s) \<le> tally past (workers s) \<and>
      length (tagChan s) \<le> tally past (workers s))"

lemma inv_cap_step:
  assumes st: "step ts d ctx desc allTags a s = Some s'" and inv: "inv_cap s"
  shows "inv_cap s'"
  using st
proof (cases rule: step_elims)
  case (worker i xs t w0 ys w s1)
  from worker(4) inv worker(2) show ?thesis unfolding worker(5)
    by (cases rule: workerStep_elims) (auto simp: inv_cap_def)
qed (use inv in \<open>auto simp: inv_cap_def\<close>)

text \<open>The invariants that hold of every run, whoever the caller is.\<close>

definition sound :: "string list \<Rightarrow> lookup \<Rightarrow> bool" where
  "sound allTags s = (slots s \<and> inv_struct allTags s \<and> inv_ctrl allTags s \<and> inv_cap s)"

lemma sound_start: "sound allTags (start allTags)"
  by (simp add: sound_def slots_def inv_struct_def inv_ctrl_def inv_cap_def start_def running_def)

lemma sound_step:
  "step ts d ctx desc allTags a s = Some s' \<Longrightarrow> sound allTags s \<Longrightarrow> sound allTags s'"
  unfolding sound_def
  by (intro conjI) (auto intro: slots_step inv_struct_step inv_ctrl_step inv_cap_step)

lemma sound_exec:
  "exec ts d ctx desc allTags sched s = Some s' \<Longrightarrow> sound allTags s \<Longrightarrow> sound allTags s'"
proof (induction sched arbitrary: s)
  case Nil
  then show ?case by simp
next
  case (Cons a sched)
  then show ?case by (auto split: option.splits dest: sound_step)
qed

lemma exec_append:
  "exec ts d ctx desc allTags (xs @ ys) s =
     (case exec ts d ctx desc allTags xs s of
        None \<Rightarrow> None
      | Some s' \<Rightarrow> exec ts d ctx desc allTags ys s')"
  by (induction xs arbitrary: s) (auto split: option.splits)

section \<open>Lookup: no goroutine is stuck\<close>

lemma worker_enabled:
  assumes snd: "sound allTags s" and ws: "workers s = xs @ (t, w0) # ys" and ne: "\<not> exited w0"
  shows "workerStep ts d desc (length allTags) t w0 s \<noteq> None"
proof -
  have le: "tally P xs + tally P ys < length (workers s)" for P
    using tally_le_length[of P xs] tally_le_length[of P ys] ws by simp
  from snd have n: "length (workers s) \<le> length allTags"
    and g: "wg s + tally exited (workers s) = length allTags"
    and l: "limiter s = tally holding (workers s)"
    and ec: "length (errChan s) \<le> tally past (workers s)"
    and tc: "length (tagChan s) \<le> tally past (workers s)"
    and cl: "tagClosed s \<longrightarrow> wg s = 0" "errClosed s \<longrightarrow> tagClosed s"
    by (auto simp: sound_def slots_def inv_struct_def inv_ctrl_def inv_cap_def)
  from g ne ws le[of exited] n have wg: "wg s \<noteq> 0" by auto
  with cl have op: "\<not> tagClosed s" "\<not> errClosed s" by auto
  show ?thesis
  proof (cases w0)
    case (WSendErr e)
    with ec ws le[of past] n op show ?thesis by auto
  next
    case WSendTag
    with tc ws le[of past] n op show ?thesis by auto
  next
    case WRelease
    with l ws show ?thesis by auto
  next
    case WDone
    with wg show ?thesis by auto
  next
    case WExit
    with ne show ?thesis by simp
  qed (auto split: sum.splits)
qed

lemma step_worker_enabled:
  assumes "sound allTags s" and "workers s = xs @ (t, w0) # ys" and "\<not> exited w0"
  shows "step ts d ctx desc allTags (AWorker (length xs)) s \<noteq> None"
  using worker_enabled[OF assms, of ts d desc] assms(2)
  by (auto split: option.splits)

lemma tally_less_split:
  assumes "tally P ws < length ws"
  shows "\<exists>xs t w ys. ws = xs @ (t, w) # ys \<and> \<not> P w"
proof -
  have "\<exists>x \<in> set ws. \<not> (case x of (t, w) \<Rightarrow> P w)"
  proof (rule ccontr)
    assume "\<not> ?thesis"
    then have "filter (\<lambda>(t, w). P w) ws = ws" by (simp add: filter_id_conv)
    with assms show False by (simp add: tally_def)
  qed
  then obtain x where x: "x \<in> set ws" "\<not> (case x of (t, w) \<Rightarrow> P w)" by blast
  from split_list[OF x(1)] obtain xs ys where "ws = xs @ x # ys" by blast
  with x(2) show ?thesis by (cases x) auto
qed

lemma tally_pos_split:
  assumes "0 < tally P ws"
  shows "\<exists>xs t w ys. ws = xs @ (t, w) # ys \<and> P w"
proof -
  from assms have "filter (\<lambda>(t, w). P w) ws \<noteq> []" by (simp add: tally_def)
  then obtain x where x: "x \<in> set ws" "case x of (t, w) \<Rightarrow> P w"
    by (auto simp: filter_empty_conv)
  from split_list[OF x(1)] obtain xs ys where "ws = xs @ x # ys" by blast
  with x(2) show ?thesis by (cases x) auto
qed

lemma holding_not_exited: "holding w \<Longrightarrow> \<not> exited w"
  by (cases w) auto

lemma progress:
  assumes snd: "sound allTags s" and run: "running s"
  shows "\<exists>a s'. step ts d ctx desc allTags a s = Some s'"
proof -
  have worker: "\<exists>a s'. step ts d ctx desc allTags a s = Some s'"
    if "workers s = xs @ (t, w0) # ys" "\<not> exited w0" for xs t w0 ys
    using step_worker_enabled[OF snd that, of ts d ctx desc] by blast
  from run consider "main s = MLoop" | "main s = MSelect" by (auto simp: running_def)
  then show ?thesis
  proof cases
    case 1
    show ?thesis
    proof (cases "length (workers s) < length allTags \<and> \<not> limiter s < 10")
      case True
      with snd have "0 < tally holding (workers s)" by (simp add: sound_def slots_def)
      from tally_pos_split[OF this] worker show ?thesis by (blast dest: holding_not_exited)
    next
      case False
      with 1 have "step ts d ctx desc allTags AMain s \<noteq> None" by auto
      then show ?thesis by blast
    qed
  next
    case 2
    show ?thesis
    proof (cases "errChan s \<noteq> [] \<or> tagChan s \<noteq> [] \<or> tagClosed s")
      case True
      with 2 have "step ts d ctx desc allTags ARecvErr s \<noteq> None
          \<or> step ts d ctx desc allTags ARecvTag s \<noteq> None"
        by (auto split: list.splits)
      then show ?thesis by blast
    next
      case False
      with snd 2 have c: "closer s = CWait \<or> closer s = CClose"
        and l: "length (workers s) = length allTags"
        by (cases "closer s"; auto simp: sound_def inv_ctrl_def)+
      show ?thesis
      proof (cases "closer s = CWait \<and> wg s \<noteq> 0")
        case True
        with snd l have "tally exited (workers s) < length (workers s)"
          by (auto simp: sound_def inv_struct_def)
        from tally_less_split[OF this] worker show ?thesis by blast
      next
        case False
        with c have "step ts d ctx desc allTags ACloser s \<noteq> None" by auto
        then show ?thesis by blast
      qed
    qed
  qed
qed

section \<open>Lookup: every run comes to an end\<close>

fun rank :: "worker \<Rightarrow> nat" where
  "rank WStart = 7"
| "rank WRead = 6"
| "rank (WErr e) = 5"
| "rank (WSendErr e) = 4"
| "rank WMatch = 5"
| "rank WSendTag = 4"
| "rank WRelease = 2"
| "rank WDone = 1"
| "rank WExit = 0"

definition ranks :: "(string \<times> worker) list \<Rightarrow> nat" where
  "ranks ws = sum_list (map (\<lambda>(t, w). rank w) ws)"

lemma ranks_simps [simp]:
  "ranks [] = 0"
  "ranks ((t, w) # ws) = rank w + ranks ws"
  "ranks (xs @ ys) = ranks xs + ranks ys"
  by (simp_all add: ranks_def)

fun mainRank :: "mainpc \<Rightarrow> nat" where
  "mainRank MLoop = 2"
| "mainRank MSelect = 1"
| "mainRank (MReturn tgs e) = 0"

fun closerRank :: "closerpc \<Rightarrow> nat" where
  "closerRank CNone = 2"
| "closerRank CWait = 2"
| "closerRank CClose = 1"
| "closerRank CExit = 0"

definition remaining :: "Context \<Rightarrow> string list \<Rightarrow> lookup \<Rightarrow> nat" where
  "remaining ctx allTags s =
     ranks (workers s) + 8 * (length allTags - length (workers s))
       + length (errChan s) + length (tagChan s)
       + mainRank (main s) + closerRank (closer s)
       + (if ctx = WithCancel \<and> \<not> ctxDone s then 1 else 0)"

lemma remaining_step:
  assumes st: "step ts d ctx desc allTags a s = Some s'" and inv: "inv_ctrl allTags s"
  shows "remaining ctx allTags s' < remaining ctx allTags s"
  using st
proof (cases rule: step_elims)
  case (worker i xs t w0 ys w s1)
  from worker(4) worker(2) show ?thesis unfolding worker(5)
    by (cases rule: workerStep_elims) (auto simp: remaining_def)
next
  case select
  with inv show ?thesis by (auto simp: remaining_def inv_ctrl_def)
qed (auto simp: remaining_def)

lemma can_return:
  assumes "sound allTags s"
  shows "\<exists>sched s'. exec ts d ctx desc allTags sched s = Some s' \<and> \<not> running s'"
  using assms
proof (induction "remaining ctx allTags s" arbitrary: s rule: less_induct)
  case less
  show ?case
  proof (cases "running s")
    case False
    then have "exec ts d ctx desc allTags [] s = Some s \<and> \<not> running s" by simp
    then show ?thesis by blast
  next
    case True
    from progress[OF less.prems True] obtain a s1
      where st: "step ts d ctx desc allTags a s = Some s1" by blast
    from less.prems have "inv_ctrl allTags s" by (simp add: sound_def)
    from remaining_step[OF st this] sound_step[OF st less.prems] less.hyps
    obtain sched s' where "exec ts d ctx desc allTags sched s1 = Some s'" "\<not> running s'"
      by blast
    with st have "exec ts d ctx desc allTags (a # sched) s = Some s' \<and> \<not> running s'" by simp
    then show ?thesis by blast
  qed
qed

lemma not_running: "(\<not> running s) = (\<exists>tgs e. main s = MReturn tgs e)"
  by (cases "main s") (auto simp: running_def)

section \<open>Lookup: what a run collects\<close>

fun failing :: "worker \<Rightarrow> bool" where
  "failing (WErr e) = True"
| "failing (WSendErr e) = True"
| "failing w = False"







section \<open>Lookup: reads that only fail with not-found\<close>

definition inv_noerr :: "lookup \<Rightarrow> bool" where
  "inv_noerr s =
     (errChan s = [] \<and> list_all (\<lambda>(t, w). \<not> failing w) (workers s) \<and>
      (\<forall>tgs e. main s \<noteq> MReturn tgs (Some e)))"

lemma inv_noerr_step:
  assumes st: "step ts d ctx desc allTags a s = Some s'"
    and benign: "\<forall>tag e. readlink d (tagLinkPath ts tag) = Inl e \<longrightarrow> isPathNotFound e"
    and snd: "sound allTags s" and inv: "inv_noerr s"
  shows "inv_noerr s'"
  using st
proof (cases rule: step_elims)
  case (worker i xs t w0 ys w s1)
  from worker(4) inv worker(2) benign show ?thesis unfolding worker(5)
    by (cases rule: workerStep_elims) (auto simp: inv_noerr_def)
qed (use inv in \<open>auto simp: inv_noerr_def\<close>)

lemma inv_noerr_exec:
  "exec ts d ctx desc allTags sched s = Some s' \<Longrightarrow>
   \<forall>tag e. readlink d (tagLinkPath ts tag) = Inl e \<longrightarrow> isPathNotFound e \<Longrightarrow>
   sound allTags s \<Longrightarrow> inv_noerr s \<Longrightarrow> inv_noerr s'"
proof (induction sched arbitrary: s)
  case Nil
  then show ?case by simp
next
  case (Cons a sched)
  then show ?case by (auto split: option.splits dest: sound_step inv_noerr_step)
qed

section \<open>Lookup: the tags that are listed\<close>

definition listedTags :: "tagStore \<Rightarrow> storageDriver \<Rightarrow> string list" where
  "listedTags ts d = map filename (children (files d) (manifestTagsPath (repository ts)))"



lemma filename_child [simp]: "filename (p @ [x]) = x"
  by (simp add: filename_def)



lemma All_tags_listed:
  assumes "\<forall>e. ListError d (manifestTagsPath (repository ts)) = Some e \<longrightarrow> isPathNotFound e"
  shows "\<exists>err. All_tags ts d = (if ListError d (manifestTagsPath (repository ts)) = None
                                then listedTags ts d else [], err) \<and>
               (case err of None \<Rightarrow> True | Some e \<Rightarrow> isRepositoryUnknown e)"
  using assms
  by (auto simp: All_tags_def pathFor_tag manifestTagPath_empty_tag ListPath_def listedTags_def
           split: option.splits)

lemma tagLinkPath_current [simp]: "tagLinkPath ts tag = currentLinkPath (repository ts) tag"
  by (simp add: tagLinkPath_def pathFor_current)




section \<open>Lookup: the result\<close>

lemma Lookup_run:
  assumes "\<forall>e. ListError d (manifestTagsPath (repository ts)) = Some e \<longrightarrow> isPathNotFound e"
  shows "Lookup ts d ctx desc sched = Some (tgs, e) \<longleftrightarrow>
     (\<exists>s. exec ts d ctx desc
             (if ListError d (manifestTagsPath (repository ts)) = None then listedTags ts d else [])
             sched
             (start (if ListError d (manifestTagsPath (repository ts)) = None
                     then listedTags ts d else []))
           = Some s \<and> main s = MReturn tgs e)"
proof -
  from All_tags_listed[OF assms] obtain err where
    "All_tags ts d = (if ListError d (manifestTagsPath (repository ts)) = None
                      then listedTags ts d else [], err)"
    "case err of None \<Rightarrow> True | Some e \<Rightarrow> isRepositoryUnknown e"
    by blast
  then show ?thesis
    by (auto simp: Lookup_def split: option.splits mainpc.splits)
qed

lemma sound_run:
  "exec ts d ctx desc allTags sched (start allTags) = Some s \<Longrightarrow> sound allTags s"
  by (rule sound_exec[OF _ sound_start])


section \<open>Lookup: the bound on reads in flight\<close>


text \<open>
  Eleven tags: after ten goroutines are started and have reached their read, the limiter
  is full and the calling goroutine cannot start the eleventh.
\<close>

definition elevenTags :: "string list" where
  "elevenTags = map (\<lambda>c. [c]) ''abcdefghijk''"

definition gateSchedule :: "actor list" where
  "gateSchedule = replicate 10 AMain @ map AWorker [0..<10]"

definition gateFull :: lookup where
  "gateFull =
     \<lparr>workers = map (\<lambda>t. (t, WRead)) (butlast elevenTags), limiter = 10, wg = 11,
      errChan = [], errClosed = False, tagChan = [], tagClosed = False,
      ctxDone = False, tags = [], main = MLoop, closer = CNone\<rparr>"

lemma exec_gateSchedule:
  "exec testTagStore testDriver Background descA elevenTags gateSchedule (start elevenTags)
     = Some gateFull"
  by code_simp


section \<open>Lookup: the store of the tests\<close>

text \<open>
  The store of the lookup test, \<^verbatim>\<open>a\<close> and \<^verbatim>\<open>b\<close> tagged with the first
  digest, \<^verbatim>\<open>0\<close> and \<^verbatim>\<open>1\<close> with the second, and a schedule that runs the
  goroutines one after the other.
\<close>

definition lookupDriver :: storageDriver where
  "lookupDriver =
     snd (Tag testTagStore
       (snd (Tag testTagStore
         (snd (Tag testTagStore
           (snd (Tag testTagStore testDriver ''a'' descA)) ''b'' descA)) ''0'' descB)) ''1'' descB)"


lemma files_lookupDriver:
  "files lookupDriver =
     [(indexEntryLinkPath ''a/b'' ''a'' digestA, digestA),
      (currentLinkPath ''a/b'' ''a'', digestA),
      (indexEntryLinkPath ''a/b'' ''b'' digestA, digestA),
      (currentLinkPath ''a/b'' ''b'', digestA),
      (indexEntryLinkPath ''a/b'' ''0'' digestB, digestB),
      (currentLinkPath ''a/b'' ''0'', digestB),
      (indexEntryLinkPath ''a/b'' ''1'' digestB, digestB),
      (currentLinkPath ''a/b'' ''1'', digestB)]"
  by code_simp

lemma faults_lookupDriver:
  "ListError lookupDriver p = None" "GetContentError lookupDriver p = None"
  unfolding lookupDriver_def
  by (simp_all add: Tag_cases Validate_desc testDriver_def split: option.splits)





section \<open>Lookup: a failed read that is lost\<close>

text \<open>
  Two tags with the same digest; the read of the current link of \<^verbatim>\<open>b\<close> is made
  to fail with an error that is not a not-found error. Under the schedule both goroutines
  run to their end, the one sending its tag and the other its error, and the tag channel
  is closed before the calling goroutine receives anything. It receives the tag; then
  both cases of its \<^verbatim>\<open>select\<close> are ready.
\<close>

definition raceDriver :: storageDriver where
  "raceDriver =
     (snd (Tag testTagStore (snd (Tag testTagStore testDriver ''a'' descA)) ''b'' descA))
       \<lparr>GetContentError := (\<lambda>p. if p = currentLinkPath ''a/b'' ''b''
                                  then Some (BackendError ''Lookup failure'') else None)\<rparr>"

definition raceSchedule :: "actor list" where
  "raceSchedule =
     replicate 3 AMain @ replicate 6 (AWorker 0) @ replicate 6 (AWorker 1)
       @ [ACloser, ACloser, ARecvTag]"

text \<open>
  Claim C3. The claim is that a read failing with an error other than not-found makes
  \<^verbatim>\<open>Lookup\<close> return that error and no tags. When the \<^verbatim>\<open>select\<close> takes
  the error case, it does. When it takes the tag case, the channel being closed,
  \<^verbatim>\<open>Lookup\<close> closes the error channel without reading it and returns the tag
  of \<^verbatim>\<open>a\<close> with no error.
\<close>

theorem Lookup_loses_read_error:
  "map_of (files raceDriver) (currentLinkPath ''a/b'' ''a'') = Some (Digest descA) \<and>
   readlink raceDriver (tagLinkPath testTagStore ''b'') = Inl (BackendError ''Lookup failure'') \<and>
   All_tags testTagStore raceDriver = ([''a'', ''b''], None) \<and>
   Lookup testTagStore raceDriver Background descA (raceSchedule @ [ARecvErr])
     = Some ([], Some (BackendError ''Lookup failure'')) \<and>
   Lookup testTagStore raceDriver Background descA (raceSchedule @ [ARecvTag])
     = Some ([''a''], None)"
  by code_simp

section \<open>Lookup: further properties\<close>

text \<open>
  X1. When the listing fails with nothing but a not-found error, and every read of a
  current link that fails does so with a not-found error, every run of
  \<^verbatim>\<open>Lookup\<close> that returns does so with no error, whoever the caller is, and
  some run returns.
\<close>

theorem Lookup_ignores_not_found:
  assumes list: "\<forall>e. ListError d (manifestTagsPath (repository ts)) = Some e \<longrightarrow> isPathNotFound e"
    and benign: "\<forall>tag e. readlink d (tagLinkPath ts tag) = Inl e \<longrightarrow> isPathNotFound e"
  shows "(\<forall>sched tgs e. Lookup ts d ctx desc sched = Some (tgs, e) \<longrightarrow> e = None) \<and>
         (\<exists>sched tgs. Lookup ts d ctx desc sched = Some (tgs, None))"
proof -
  let ?A = "if ListError d (manifestTagsPath (repository ts)) = None then listedTags ts d else []"
  have noerr: "e = None" if "Lookup ts d ctx desc sched = Some (tgs, e)" for sched tgs e
  proof -
    from that Lookup_run[OF list, of ctx desc sched tgs e] obtain s where
      ex: "exec ts d ctx desc ?A sched (start ?A) = Some s" and m: "main s = MReturn tgs e"
      by auto
    from inv_noerr_exec[OF ex benign sound_start] m show ?thesis
      by (cases e) (auto simp: inv_noerr_def start_def)
  qed
  moreover have "\<exists>sched tgs. Lookup ts d ctx desc sched = Some (tgs, None)"
  proof -
    from can_return[where allTags = "?A" and s = "start ?A" and ts = ts and d = d
          and ctx = ctx and desc = desc, OF sound_start]
    obtain sched s where ex: "exec ts d ctx desc ?A sched (start ?A) = Some s" and "\<not> running s"
      by blast
    then obtain tgs e where "main s = MReturn tgs e" by (auto simp: not_running)
    with ex Lookup_run[OF list, of ctx desc sched tgs e]
    have L: "Lookup ts d ctx desc sched = Some (tgs, e)" by auto
    with noerr have "e = None" by blast
    with L show ?thesis by blast
  qed
  ultimately show ?thesis by blast
qed

text \<open>The driver of the tests made to answer every read with a not-found error.\<close>

definition notFoundDriver :: storageDriver where
  "notFoundDriver = lookupDriver\<lparr>GetContentError := (\<lambda>p. Some (PathNotFoundError p))\<rparr>"

definition notFoundSchedule :: "actor list" where
  "notFoundSchedule =
     replicate 5 AMain @ replicate 4 (AWorker 0) @ replicate 4 (AWorker 1)
       @ replicate 4 (AWorker 2) @ replicate 4 (AWorker 3) @ [ACloser, ACloser, ARecvTag]"

lemma Lookup_notFoundDriver:
  "Lookup testTagStore notFoundDriver Background descB notFoundSchedule = Some ([], None)"
  by code_simp

theorem Lookup_ignores_not_found_witness:
  "ListError notFoundDriver (manifestTagsPath (repository testTagStore)) = None \<and>
   readlink notFoundDriver (tagLinkPath testTagStore ''0'')
     = Inl (PathNotFoundError (tagLinkPath testTagStore ''0'')) \<and>
   map_of (files notFoundDriver) (tagLinkPath testTagStore ''0'') = Some (Digest descB) \<and>
   Lookup testTagStore notFoundDriver Background descB notFoundSchedule = Some ([], None)"
proof -
  have l: "ListError notFoundDriver p = None" for p
    by (simp add: notFoundDriver_def faults_lookupDriver)
  have r: "readlink notFoundDriver p = Inl (PathNotFoundError p)" for p
    by (simp add: notFoundDriver_def readlink_def GetContent_def)
  have m: "map_of (files notFoundDriver) (tagLinkPath testTagStore ''0'') = Some (Digest descB)"
    by code_simp
  from Lookup_ignores_not_found[of notFoundDriver testTagStore Background descB] l r
    Lookup_notFoundDriver
  have "Lookup testTagStore notFoundDriver Background descB notFoundSchedule = Some ([], None)"
    by simp
  with l r m show ?thesis by simp
qed

lemma remaining_exec:
  "exec ts d ctx desc allTags sched s = Some s' \<Longrightarrow> sound allTags s \<Longrightarrow>
   length sched + remaining ctx allTags s' \<le> remaining ctx allTags s"
proof (induction sched arbitrary: s)
  case Nil
  then show ?case by simp
next
  case (Cons a sched)
  from Cons.prems(1) obtain s1 where st: "step ts d ctx desc allTags a s = Some s1"
    and ex: "exec ts d ctx desc allTags sched s1 = Some s'"
    by (auto split: option.splits)
  from Cons.prems(2) have "inv_ctrl allTags s" by (simp add: sound_def)
  from remaining_step[OF st this] Cons.IH[OF ex sound_step[OF st Cons.prems(2)]]
  show ?case by simp
qed

text \<open>
  X2. A run of \<^verbatim>\<open>Lookup\<close> over n tags has at most 8 n + 5 steps; as long as the
  call has not returned some goroutine can take a step; and every run can be continued
  to the return of the call.
\<close>

theorem Lookup_terminates:
  "exec ts d ctx desc allTags sched (start allTags) = Some s \<longrightarrow>
     length sched \<le> 8 * length allTags + 5 \<and>
     (running s \<longrightarrow> (\<exists>a s'. step ts d ctx desc allTags a s = Some s')) \<and>
     (\<exists>sched' s'. exec ts d ctx desc allTags (sched @ sched') (start allTags) = Some s' \<and>
                  \<not> running s')"
proof
  assume ex: "exec ts d ctx desc allTags sched (start allTags) = Some s"
  from sound_run[OF ex] have snd: "sound allTags s" .
  from remaining_exec[OF ex sound_start] have "length sched \<le> remaining ctx allTags (start allTags)"
    by simp
  then have 1: "length sched \<le> 8 * length allTags + 5"
    by (simp add: remaining_def start_def split: if_splits)
  from progress[OF snd] have 2: "running s \<longrightarrow> (\<exists>a s'. step ts d ctx desc allTags a s = Some s')"
    by blast
  from can_return[OF snd, of ts d ctx desc] obtain sched' s'
    where "exec ts d ctx desc allTags sched' s = Some s'" "\<not> running s'" by blast
  with ex have 3: "\<exists>sched' s'. exec ts d ctx desc allTags (sched @ sched') (start allTags) = Some s' \<and>
                  \<not> running s'"
    by (auto simp: exec_append)
  from 1 2 3 show "length sched \<le> 8 * length allTags + 5 \<and>
     (running s \<longrightarrow> (\<exists>a s'. step ts d ctx desc allTags a s = Some s')) \<and>
     (\<exists>sched' s'. exec ts d ctx desc allTags (sched @ sched') (start allTags) = Some s' \<and>
                  \<not> running s')"
    by blast
qed

theorem Lookup_terminates_witness:
  "exec testTagStore testDriver Background descA elevenTags gateSchedule (start elevenTags)
     = Some gateFull \<and>
   length gateSchedule \<le> 8 * length elevenTags + 5 \<and>
   running gateFull \<and>
   (\<exists>a s'. step testTagStore testDriver Background descA elevenTags a gateFull = Some s')"
proof -
  have "running gateFull" by (simp add: running_def gateFull_def)
  with Lookup_terminates
         [of testTagStore testDriver Background descA elevenTags gateSchedule gateFull]
    exec_gateSchedule
  show ?thesis by blast
qed

end
